theory Spec2Isabelle
  imports Main "HOL-Library.Word" "HOL-Library.AList" "HOL-Library.Multiset"
begin

section \<open>Data model\<close>

text \<open>
  The Go package \<^verbatim>\<open>response\<close> keeps captured HTTP responses in two collections,
  \<^verbatim>\<open>ResponsePack\<close> and \<^verbatim>\<open>CompressResponsePack\<close>.  A Go map is modelled as an association
  list that is only changed through \<open>AList.update\<close> and \<open>AList.delete\<close>; a loop
  \<^verbatim>\<open>for k, v := range m\<close> visits the list from left to right.  Go leaves the
  iteration order of a map unspecified, so statements that quantify over every
  association list cover every order.  A pointer that may be \<^verbatim>\<open>nil\<close> is an
  \<open>option\<close>; a Go \<^verbatim>\<open>error\<close> result is an \<open>error option\<close> or the left summand of
  a sum.  The two \<^verbatim>\<open>float64\<close> ratio fields of \<^verbatim>\<open>ResponsePack\<close> are derived output that no
  operation reads back; they are not part of the model.
\<close>

type_synonym byte = "8 word"

record Response =
  Method :: string
  StatusCode :: int
  Url :: string
  Host :: string
  Headers :: "(string \<times> string) list"
  Body :: "byte list"
  BodyLength :: "64 word"
  RawResponse :: "byte list"

datatype error =
    ResponseIsNil
  | ResponsePackIsNil
  | ResponseNotFound string
  | NoResponsesFound
  | LibraryError string

text \<open>The text of each error, as passed to \<^verbatim>\<open>fmt.Errorf\<close>.\<close>

fun Error :: "error \<Rightarrow> string" where
  "Error ResponseIsNil = ''response is nil''"
| "Error ResponsePackIsNil = ''response pack is nil''"
| "Error (ResponseNotFound url) = ''response not found for URL: '' @ url"
| "Error NoResponsesFound = ''no responses found''"
| "Error (LibraryError msg) = msg"

text \<open>
  Modelled from the spec: \<^verbatim>\<open>codes.IsSuccess\<close> belongs to the imported package
  \<^verbatim>\<open>jr_httpcodes/codes\<close>, whose source is not part of this repository; the spec gives its
  contract as "isSuccess(code) -> bool (2xx range)".
\<close>

definition IsSuccess :: "int \<Rightarrow> bool" where
  "IsSuccess code \<longleftrightarrow> 200 \<le> code \<and> code < 300"

subsection \<open>Round keys\<close>

text \<open>\<^verbatim>\<open>fmt.Sprintf("round_%d", n)\<close> for a non-negative \<^verbatim>\<open>n\<close>: the decimal digits of \<^verbatim>\<open>n\<close>.\<close>

definition digit_char :: "nat \<Rightarrow> char" where
  "digit_char d = char_of (48 + d)"

fun decimal :: "nat \<Rightarrow> string" where
  "decimal n = (if n < 10 then [digit_char n] else decimal (n div 10) @ [digit_char (n mod 10)])"

declare decimal.simps [simp del]

definition round_key :: "nat \<Rightarrow> string" where
  "round_key n = ''round_'' @ decimal n"

text \<open>Reading a decimal numeral back; only used to show that round keys are distinct.\<close>

definition digit_val :: "char \<Rightarrow> nat" where
  "digit_val c = of_char c - 48"

definition undecimal :: "string \<Rightarrow> nat" where
  "undecimal s = foldl (\<lambda>a c. 10 * a + digit_val c) 0 s"

subsection \<open>Goroutine schedules\<close>

text \<open>
  A batch operation starts one goroutine per index of a slice and waits for all of them.
  Each goroutine performs one store operation, which runs under the store's lock, so a run
  of the batch is the sequence of these operations in the order in which the goroutines
  get the lock.  That order is the parameter \<open>sched\<close>: a list of goroutine indices.
  \<open>scheduled sched xs\<close> lists the items in that order; an index that names no goroutine is
  skipped.  \<open>is_schedule n sched\<close> says that each of the \<open>n\<close> goroutines runs exactly once.
\<close>

definition scheduled :: "nat list \<Rightarrow> 'a list \<Rightarrow> 'a list" where
  "scheduled sched xs = map (\<lambda>i. xs ! i) (filter (\<lambda>i. i < length xs) sched)"

definition is_schedule :: "nat \<Rightarrow> nat list \<Rightarrow> bool" where
  "is_schedule n sched \<longleftrightarrow> mset sched = mset [0..<n]"

section \<open>ResponsePack\<close>

record ResponsePack =
  Responses :: "(string \<times> (string \<times> Response) list) list"
  Total :: "64 word"
  Success :: "64 word"
  Failure :: "64 word"
  Info :: "(string \<times> string) list"

definition NewResponsePack :: ResponsePack where
  "NewResponsePack = \<lparr>Responses = [], Total = 0, Success = 0, Failure = 0, Info = []\<rparr>"

definition ResponsePack_GetResponse :: "ResponsePack \<Rightarrow> string \<Rightarrow> error + Response list" where
  "ResponsePack_GetResponse r url =
     (case map_of (Responses r) url of
        None \<Rightarrow> Inl (ResponseNotFound url)
      | Some result \<Rightarrow> Inr (map snd result))"

definition ResponsePack_GetKeysOfResponses :: "ResponsePack \<Rightarrow> string list" where
  "ResponsePack_GetKeysOfResponses p = map fst (Responses p)"

definition ResponsePack_AddResponse ::
  "ResponsePack \<Rightarrow> Response option \<Rightarrow> error option \<times> ResponsePack" where
  "ResponsePack_AddResponse p response =
     (case response of
        None \<Rightarrow> (Some ResponseIsNil, p)
      | Some resp \<Rightarrow>
          let p1 = (if IsSuccess (StatusCode resp)
                    then p\<lparr>Success := Success p + 1\<rparr>
                    else p\<lparr>Failure := Failure p + 1\<rparr>);
              p2 = p1\<lparr>Total := Total p1 + 1\<rparr>
          in (case map_of (Responses p2) (Url resp) of
                None \<Rightarrow>
                  (None, p2\<lparr>Responses :=
                     AList.update (Url resp) (AList.update ''round_1'' resp []) (Responses p2)\<rparr>)
              | Some inner \<Rightarrow>
                  let round = length inner;
                      newKey = round_key (round + 1)
                  in (None, p2\<lparr>Responses :=
                        AList.update (Url resp) (AList.update newKey resp inner) (Responses p2)\<rparr>)))"

text \<open>A sequence of \<^verbatim>\<open>AddResponse\<close> calls, collecting the errors of the calls that fail.\<close>

fun ResponsePack_AddResponse_seq ::
  "ResponsePack \<Rightarrow> Response option list \<Rightarrow> error list \<times> ResponsePack" where
  "ResponsePack_AddResponse_seq p [] = ([], p)"
| "ResponsePack_AddResponse_seq p (r # rs) =
     (case ResponsePack_AddResponse p r of
        (e, p') \<Rightarrow>
          (case ResponsePack_AddResponse_seq p' rs of
             (es, p'') \<Rightarrow> ((case e of None \<Rightarrow> es | Some x \<Rightarrow> x # es), p'')))"

text \<open>
  \<^verbatim>\<open>BatchAddResponse\<close> starts \<open>maxWorkers = min(NumCPU, len(responses))\<close> goroutines; goroutine
  \<open>i\<close> calls \<^verbatim>\<open>AddResponse(responses[i])\<close> once.  \<open>numCPU\<close> is \<^verbatim>\<open>runtime.NumCPU()\<close>.
\<close>

definition ResponsePack_BatchAddResponse ::
  "nat \<Rightarrow> nat list \<Rightarrow> ResponsePack \<Rightarrow> Response option list \<Rightarrow> error list \<times> ResponsePack" where
  "ResponsePack_BatchAddResponse numCPU sched p responses =
     (let maxWorkers = (if length responses < numCPU then length responses else numCPU)
      in ResponsePack_AddResponse_seq p
           (map (\<lambda>i. responses ! i) (filter (\<lambda>i. i < maxWorkers) sched)))"

definition ResponsePack_AddInfo :: "ResponsePack \<Rightarrow> string \<Rightarrow> string \<Rightarrow> ResponsePack" where
  "ResponsePack_AddInfo p key val = p\<lparr>Info := AList.update key val (Info p)\<rparr>"

definition ResponsePack_Len :: "ResponsePack option \<Rightarrow> nat" where
  "ResponsePack_Len p = (case p of None \<Rightarrow> 0 | Some q \<Rightarrow> length (Responses q))"

text \<open>Splitting the outcomes of the goroutines into the two channels.\<close>

fun errors_of :: "(error + 'a) list \<Rightarrow> error list" where
  "errors_of [] = []"
| "errors_of (Inl e # xs) = e # errors_of xs"
| "errors_of (Inr v # xs) = errors_of xs"

fun results_of :: "(error + 'a list) list \<Rightarrow> 'a list list" where
  "results_of [] = []"
| "results_of (Inl e # xs) = results_of xs"
| "results_of (Inr v # xs) = (if v = [] then results_of xs else v # results_of xs)"

text \<open>
  \<^verbatim>\<open>BatchGetResponse\<close>: one goroutine per URL calls \<^verbatim>\<open>GetResponse\<close>; an error goes to
  \<^verbatim>\<open>errCh\<close>, a non-nil slice to \<^verbatim>\<open>resultCh\<close>.  Afterwards every result slice is stored
  under the URL of its first record, record number \<open>index\<close> under the key
  \<^verbatim>\<open>fmt.Sprintf("round_%d", index)\<close>.
\<close>

definition ResponsePack_BatchGetResponse ::
  "nat list \<Rightarrow> ResponsePack \<Rightarrow> string list
     \<Rightarrow> (string \<times> (string \<times> Response) list) list \<times> error list" where
  "ResponsePack_BatchGetResponse sched r urls =
     (let outcomes = map (ResponsePack_GetResponse r) (scheduled sched urls);
          errors = errors_of outcomes
      in (fold (\<lambda>result output.
                  let urlKey = Url (result ! 0)
                  in AList.update urlKey
                       (fold (\<lambda>(index, response) inner.
                                AList.update (round_key index) response inner)
                             (List.enumerate 0 result) [])
                       output)
               (results_of outcomes) [],
          errors))"

text \<open>
  \<^verbatim>\<open>GetErrorReport\<close>: the two nested \<^verbatim>\<open>range\<close> loops.  For a record that is not a
  success the loop body first runs \<^verbatim>\<open>output[outKey] = make(...)\<close> and then
  \<^verbatim>\<open>output[outKey][inKey] = inValue\<close>.
\<close>

fun report_rounds ::
  "string \<Rightarrow> (string \<times> Response) list \<Rightarrow> (string \<times> (string \<times> Response) list) list
     \<Rightarrow> (string \<times> (string \<times> Response) list) list" where
  "report_rounds outKey [] output = output"
| "report_rounds outKey ((inKey, inValue) # rest) output =
     report_rounds outKey rest
       (if \<not> IsSuccess (StatusCode inValue)
        then AList.update outKey (AList.update inKey inValue []) output
        else output)"

fun report_urls ::
  "(string \<times> (string \<times> Response) list) list \<Rightarrow> (string \<times> (string \<times> Response) list) list
     \<Rightarrow> (string \<times> (string \<times> Response) list) list" where
  "report_urls [] output = output"
| "report_urls ((outKey, outValue) # rest) output =
     report_urls rest (report_rounds outKey outValue output)"

definition ResponsePack_GetErrorReport ::
  "ResponsePack option \<Rightarrow> error + (string \<times> (string \<times> Response) list) list" where
  "ResponsePack_GetErrorReport p =
     (case p of
        None \<Rightarrow> Inl ResponsePackIsNil
      | Some q \<Rightarrow>
          if ResponsePack_Len p = 0 then Inl NoResponsesFound
          else Inr (report_urls (Responses q) []))"

text \<open>
  \<^verbatim>\<open>GetErrorReportString\<close> renders the report, one line per URL and one per round with the
  status code printed by \<^verbatim>\<open>%d\<close>; when \<^verbatim>\<open>GetErrorReport\<close> fails it returns the text of the
  error together with the error.
\<close>

definition decimal_int :: "int \<Rightarrow> string" where
  "decimal_int i = (if i < 0 then CHR ''-'' # decimal (nat (- i)) else decimal (nat i))"

definition ResponsePack_GetErrorReportString :: "ResponsePack option \<Rightarrow> string \<times> error option" where
  "ResponsePack_GetErrorReportString p =
     (case ResponsePack_GetErrorReport p of
        Inl err \<Rightarrow> (Error err, Some err)
      | Inr reportMap \<Rightarrow>
          (''Error Report:'' @ [CHR 0x0A] @
           concat (map (\<lambda>(key, val).
                          ''URL: '' @ key @ [CHR 0x0A] @
                          concat (map (\<lambda>(inKey, inValue).
                                         [CHR 0x09] @ inKey @ '': '' @
                                         decimal_int (StatusCode inValue) @ [CHR 0x0A])
                                      val))
                       reportMap),
           None))"

section \<open>CompressResponsePack\<close>

text \<open>
  \<^verbatim>\<open>Response.Compress\<close> and \<^verbatim>\<open>NewResponseFromCompressed\<close> call \<^verbatim>\<open>encoding/json\<close> and
  \<^verbatim>\<open>compress/gzip\<close> of the Go standard library.  The store never looks inside a compressed
  blob, so its operations take the two functions as parameters \<open>compress\<close> and
  \<open>decompress\<close>, and the type \<open>'b\<close> of a blob (\<^verbatim>\<open>[]byte\<close> in Go) is left open.
\<close>

record 'b CompressResponsePack =
  CompressedResponses :: "(string \<times> (string \<times> 'b) list) list"
  MetaInfo :: "(string \<times> string) list"

definition NewCompressResponsePack :: "'b CompressResponsePack" where
  "NewCompressResponsePack = \<lparr>CompressedResponses = [], MetaInfo = []\<rparr>"

definition CompressResponsePack_AddResponse ::
  "(Response \<Rightarrow> error + 'b) \<Rightarrow> 'b CompressResponsePack option \<Rightarrow> Response option
     \<Rightarrow> error option \<times> 'b CompressResponsePack option" where
  "CompressResponsePack_AddResponse compress r response =
     (case response of
        None \<Rightarrow> (Some ResponseIsNil, r)
      | Some resp \<Rightarrow>
          (case r of
             None \<Rightarrow> (Some ResponsePackIsNil, r)
           | Some q \<Rightarrow>
               (case compress resp of
                  Inl err \<Rightarrow> (Some err, r)
                | Inr compressedData \<Rightarrow>
                    (case map_of (CompressedResponses q) (Url resp) of
                       None \<Rightarrow>
                         (None, Some (q\<lparr>CompressedResponses :=
                            AList.update (Url resp) (AList.update ''round_1'' compressedData [])
                              (CompressedResponses q)\<rparr>))
                     | Some inner \<Rightarrow>
                         let round = length inner
                         in (None, Some (q\<lparr>CompressedResponses :=
                               AList.update (Url resp)
                                 (AList.update (round_key (round + 1)) compressedData inner)
                                 (CompressedResponses q)\<rparr>))))))"

fun CompressResponsePack_AddResponse_seq ::
  "(Response \<Rightarrow> error + 'b) \<Rightarrow> 'b CompressResponsePack option \<Rightarrow> Response option list
     \<Rightarrow> error list \<times> 'b CompressResponsePack option" where
  "CompressResponsePack_AddResponse_seq compress r [] = ([], r)"
| "CompressResponsePack_AddResponse_seq compress r (x # xs) =
     (case CompressResponsePack_AddResponse compress r x of
        (e, r') \<Rightarrow>
          (case CompressResponsePack_AddResponse_seq compress r' xs of
             (es, r'') \<Rightarrow> ((case e of None \<Rightarrow> es | Some y \<Rightarrow> y # es), r'')))"

text \<open>
  \<^verbatim>\<open>BatchAddResponse\<close> of the compressed store: the workers read \<^verbatim>\<open>responseCh\<close> until it
  is closed, and every element of \<^verbatim>\<open>responses\<close> is sent to it, so each element is added once
  as soon as there is one worker; with no worker nothing is taken from the channel.
\<close>

definition CompressResponsePack_BatchAddResponse ::
  "(Response \<Rightarrow> error + 'b) \<Rightarrow> nat \<Rightarrow> nat list \<Rightarrow> 'b CompressResponsePack option
     \<Rightarrow> Response option list \<Rightarrow> error list \<times> 'b CompressResponsePack option" where
  "CompressResponsePack_BatchAddResponse compress numCPU sched r responses =
     (let maxWorkers = (if length responses < numCPU then length responses else numCPU)
      in if maxWorkers = 0 then ([], r)
         else CompressResponsePack_AddResponse_seq compress r (scheduled sched responses))"

definition CompressResponsePack_GetResponseCount :: "'b CompressResponsePack \<Rightarrow> nat" where
  "CompressResponsePack_GetResponseCount r =
     fold (\<lambda>(outKey, outValue) counter. counter + length outValue) (CompressedResponses r) 0"

fun decompress_all :: "('b \<Rightarrow> error + Response) \<Rightarrow> 'b list \<Rightarrow> error + Response list" where
  "decompress_all decompress [] = Inr []"
| "decompress_all decompress (v # vs) =
     (case decompress v of
        Inl err \<Rightarrow> Inl err
      | Inr response \<Rightarrow>
          (case decompress_all decompress vs of
             Inl err \<Rightarrow> Inl err
           | Inr rest \<Rightarrow> Inr (response # rest)))"

definition CompressResponsePack_GetResponse ::
  "('b \<Rightarrow> error + Response) \<Rightarrow> 'b CompressResponsePack \<Rightarrow> string \<Rightarrow> error + Response list" where
  "CompressResponsePack_GetResponse decompress r url =
     (case map_of (CompressedResponses r) url of
        None \<Rightarrow> Inl (ResponseNotFound url)
      | Some responses \<Rightarrow> decompress_all decompress (map snd responses))"

text \<open>
  \<^verbatim>\<open>BatchGetResponse\<close> of the compressed store returns a nil map as soon as one lookup
  failed.  Otherwise each record of each result slice runs
  \<^verbatim>\<open>responses[response.Url] = make(...)\<close> and then stores the record under
  \<^verbatim>\<open>fmt.Sprintf("round_%d", index+1)\<close>.
\<close>

definition CompressResponsePack_BatchGetResponse ::
  "('b \<Rightarrow> error + Response) \<Rightarrow> nat list \<Rightarrow> 'b CompressResponsePack \<Rightarrow> string list
     \<Rightarrow> (string \<times> (string \<times> Response) list) list option \<times> error list" where
  "CompressResponsePack_BatchGetResponse decompress sched r urls =
     (let outcomes = map (CompressResponsePack_GetResponse decompress r) (scheduled sched urls);
          errSlice = errors_of outcomes
      in if length errSlice > 0 then (None, errSlice)
         else (Some (fold (\<lambda>resp responses.
                             fold (\<lambda>(index, response) responses.
                                     AList.update (Url response)
                                       (AList.update (round_key (index + 1)) response [])
                                       responses)
                                  (List.enumerate 0 resp) responses)
                          (results_of outcomes) []),
               []))"

definition CompressResponsePack_DeleteResponse ::
  "'b CompressResponsePack \<Rightarrow> string \<Rightarrow> error option \<times> 'b CompressResponsePack" where
  "CompressResponsePack_DeleteResponse r url =
     (case map_of (CompressedResponses r) url of
        None \<Rightarrow> (Some (ResponseNotFound url), r)
      | Some _ \<Rightarrow>
          let m = AList.delete url (CompressedResponses r)
          in (None, r\<lparr>CompressedResponses := (if length m = 0 then [] else m)\<rparr>))"

definition CompressResponsePack_Clear :: "'b CompressResponsePack \<Rightarrow> 'b CompressResponsePack" where
  "CompressResponsePack_Clear r = r\<lparr>CompressedResponses := []\<rparr>"

section \<open>Notions used in the statements\<close>

text \<open>
  \<open>rounds_from n xs\<close> is the inner map that holds the values \<open>xs\<close> under the consecutive
  round keys \<^verbatim>\<open>round_n\<close>, \<^verbatim>\<open>round_(n+1)\<close>, ... in this order.
\<close>

definition rounds_from :: "nat \<Rightarrow> 'a list \<Rightarrow> (string \<times> 'a) list" where
  "rounds_from n xs = map (\<lambda>(i, x). (round_key i, x)) (List.enumerate n xs)"

text \<open>The records of a sequence of \<^verbatim>\<open>AddResponse\<close> calls that are not nil, in call order.\<close>

fun committed :: "Response option list \<Rightarrow> Response list" where
  "committed [] = []"
| "committed (None # rs) = committed rs"
| "committed (Some r # rs) = r # committed rs"

text \<open>
  For the compressed store a call succeeds when the record is not nil and compresses;
  \<open>committed_blobs\<close> lists the URL and the blob of each such call, in call order.
\<close>

fun committed_blobs :: "(Response \<Rightarrow> error + 'b) \<Rightarrow> Response option list \<Rightarrow> (string \<times> 'b) list" where
  "committed_blobs compress [] = []"
| "committed_blobs compress (None # rs) = committed_blobs compress rs"
| "committed_blobs compress (Some r # rs) =
     (case compress r of
        Inl err \<Rightarrow> committed_blobs compress rs
      | Inr compressedData \<Rightarrow> (Url r, compressedData) # committed_blobs compress rs)"

text \<open>The values of a history of (URL, value) insertions that went under one URL.\<close>

definition values_under :: "string \<Rightarrow> (string \<times> 'a) list \<Rightarrow> 'a list" where
  "values_under url h = map snd (filter (\<lambda>e. fst e = url) h)"

text \<open>
  The map update that both \<^verbatim>\<open>AddResponse\<close> methods perform inside their critical section,
  and the relation between a store's map and the history of insertions it came from.
\<close>

definition commit ::
  "string \<Rightarrow> 'a \<Rightarrow> (string \<times> (string \<times> 'a) list) list \<Rightarrow> (string \<times> (string \<times> 'a) list) list" where
  "commit url v m =
     (case map_of m url of
        None \<Rightarrow> AList.update url (AList.update ''round_1'' v []) m
      | Some inner \<Rightarrow>
          AList.update url (AList.update (round_key (length inner + 1)) v inner) m)"

definition represents ::
  "(string \<times> (string \<times> 'a) list) list \<Rightarrow> (string \<times> 'a) list \<Rightarrow> bool" where
  "represents m h \<longleftrightarrow>
     distinct (map fst m) \<and>
     (\<forall>url. map_of m url =
        (if values_under url h = [] then None else Some (rounds_from 1 (values_under url h))))"

text \<open>The mutating operations of \<^verbatim>\<open>ResponsePack\<close>, to speak about any sequence of them.\<close>

datatype mutation =
    Call_AddResponse "Response option"
  | Call_BatchAddResponse nat "nat list" "Response option list"
  | Call_AddInfo string string

fun apply_mutation :: "ResponsePack \<Rightarrow> mutation \<Rightarrow> ResponsePack" where
  "apply_mutation p (Call_AddResponse r) = snd (ResponsePack_AddResponse p r)"
| "apply_mutation p (Call_BatchAddResponse numCPU sched rs) =
     snd (ResponsePack_BatchAddResponse numCPU sched p rs)"
| "apply_mutation p (Call_AddInfo key val) = ResponsePack_AddInfo p key val"

text \<open>A record as \<^verbatim>\<open>NewResponse(url, "example.com", "GET", code, nil, nil, 0, nil)\<close> builds it.\<close>

definition example_response :: "string \<Rightarrow> int \<Rightarrow> Response" where
  "example_response url code =
     \<lparr>Method = ''GET'', StatusCode = code, Url = url, Host = ''example.com'', Headers = [],
      Body = [], BodyLength = 0, RawResponse = []\<rparr>"

text \<open>The number of (URL, round) entries of a store's map.\<close>

definition entries :: "(string \<times> (string \<times> 'a) list) list \<Rightarrow> nat" where
  "entries m = sum_list (map (\<lambda>e. length (snd e)) m)"

text \<open>
  Concrete records and stores, as in the repository's tests.  In the concrete compressed
  stores the blob of a record is the record itself and both \<open>compress\<close> and \<open>decompress\<close>
  are \<open>Inr\<close>: a codec that loses nothing and never fails.
\<close>

definition api1_first :: Response where
  "api1_first = example_response ''https://example.com/api1'' 200"

definition api1_second :: Response where
  "api1_second = example_response ''https://example.com/api1'' 404"

definition api2_created :: Response where
  "api2_created = example_response ''https://example.com/api2'' 201"

definition api3_missing :: Response where
  "api3_missing = example_response ''https://example.com/api3'' 404"

definition api3_failed :: Response where
  "api3_failed = example_response ''https://example.com/api3'' 500"

definition two_rounds :: "Response CompressResponsePack" where
  "two_rounds =
     \<lparr>CompressedResponses =
        [(''https://example.com/api1'', [(''round_1'', api1_first), (''round_2'', api1_second)])],
      MetaInfo = []\<rparr>"

text \<open>
  Every record of a pack is stored under its own URL; \<^verbatim>\<open>AddResponse\<close> stores a record
  under \<^verbatim>\<open>response.Url\<close>, so this holds for every pack built by it.
\<close>

definition each_under_own_url :: "ResponsePack \<Rightarrow> bool" where
  "each_under_own_url p =
     list_all (\<lambda>(url, inner). list_all (\<lambda>(key, response). Url response = url) inner)
       (Responses p)"

text \<open>
  The body of the inner loop of the compressed store's \<^verbatim>\<open>BatchGetResponse\<close>, named to
  state lemmas about it.
\<close>

definition store_record ::
  "nat \<times> Response \<Rightarrow> (string \<times> (string \<times> Response) list) list
     \<Rightarrow> (string \<times> (string \<times> Response) list) list" where
  "store_record = (\<lambda>(index, response) responses.
      AList.update (Url response) (AList.update (round_key (index + 1)) response []) responses)"

section \<open>Properties\<close>

lemma digit_val_char: "d < 10 \<Longrightarrow> digit_val (digit_char d) = d"
  by (simp add: digit_val_def digit_char_def)

lemma undecimal_snoc: "undecimal (s @ [c]) = 10 * undecimal s + digit_val c"
  by (simp add: undecimal_def)

lemma undecimal_decimal: "undecimal (decimal n) = n"
proof (induction n rule: decimal.induct)
  case (1 n)
  show ?case
  proof (cases "n < 10")
    case True
    then show ?thesis by (simp add: decimal.simps [of n] undecimal_def digit_val_char)
  next
    case False
    with 1 show ?thesis
      by (simp add: decimal.simps [of n] undecimal_snoc digit_val_char)
  qed
qed

lemma round_key_inj: "round_key m = round_key n \<longleftrightarrow> m = n"
  by (metis round_key_def same_append_eq undecimal_decimal)

lemma inj_round_key: "inj round_key"
  by (simp add: inj_def round_key_inj)

lemma round_key_1: "round_key (Suc 0) = ''round_1''"
  by code_simp

lemma update_fresh: "k \<notin> fst ` set al \<Longrightarrow> AList.update k v al = al @ [(k, v)]"
  by (induction al) auto

lemma length_rounds_from [simp]: "length (rounds_from n xs) = length xs"
  by (simp add: rounds_from_def)

lemma keys_rounds_from: "map fst (rounds_from n xs) = map round_key [n..<n + length xs]"
  by (simp add: rounds_from_def comp_def case_prod_unfold flip: map_map [of round_key fst, unfolded comp_def])

lemma vals_rounds_from [simp]: "map snd (rounds_from n xs) = xs"
  by (simp add: rounds_from_def comp_def case_prod_unfold)

lemma distinct_rounds_from: "distinct (map fst (rounds_from n xs))"
  by (simp add: keys_rounds_from distinct_map inj_on_def round_key_inj)

lemma rounds_from_snoc:
  "rounds_from n (xs @ [x]) = rounds_from n xs @ [(round_key (n + length xs), x)]"
  by (simp add: rounds_from_def enumerate_append_eq)

lemma rounds_from_single: "AList.update ''round_1'' v [] = rounds_from (Suc 0) [v]"
  by (simp add: rounds_from_def round_key_1)

lemma rounds_from_update:
  "AList.update (round_key (n + length xs)) x (rounds_from n xs) = rounds_from n (xs @ [x])"
proof -
  have "fst ` set (rounds_from n xs) = round_key ` {n..<n + length xs}"
    using keys_rounds_from [of n xs] by (metis list.set_map set_upt)
  then have "round_key (n + length xs) \<notin> fst ` set (rounds_from n xs)"
    by (auto simp: round_key_inj)
  then show ?thesis by (simp add: update_fresh rounds_from_snoc)
qed

lemma rounds_of_update:
  "AList.update (round_key (Suc (length xs))) x (rounds_from (Suc 0) xs) =
     rounds_from (Suc 0) (xs @ [x])"
  using rounds_from_update [of "Suc 0" xs x] by simp

lemma values_under_snoc:
  "values_under url (h @ [(u, v)]) = (if u = url then values_under url h @ [v] else values_under url h)"
  by (simp add: values_under_def)

lemma commit_represents:
  assumes "represents m h"
  shows "represents (commit u v m) (h @ [(u, v)])"
proof -
  from assms have d: "distinct (map fst m)"
    and look: "\<And>url. map_of m url = (if values_under url h = [] then None else Some (rounds_from (Suc 0) (values_under url h)))"
    by (simp_all add: represents_def)
  show ?thesis
  proof (cases "values_under u h = []")
    case True
    then have "commit u v m = AList.update u (rounds_from (Suc 0) [v]) m"
      by (simp add: commit_def look rounds_from_single del: AList.update.simps)
    with d look True show ?thesis
      by (simp add: represents_def distinct_update update_conv' values_under_snoc)
  next
    case False
    then have "commit u v m = AList.update u (rounds_from (Suc 0) (values_under u h @ [v])) m"
      by (simp add: commit_def look rounds_of_update)
    with d look False show ?thesis
      by (simp add: represents_def distinct_update update_conv' values_under_snoc)
  qed
qed

lemma represents_empty: "represents [] []"
  by (simp add: represents_def values_under_def)


lemma AddResponse_nil: "ResponsePack_AddResponse p None = (Some ResponseIsNil, p)"
  by (simp add: ResponsePack_AddResponse_def)

lemma AddResponse_commit:
  "ResponsePack_AddResponse p (Some r) =
     (None, p\<lparr>Responses := commit (Url r) r (Responses p),
              Total := Total p + 1,
              Success := (if IsSuccess (StatusCode r) then Success p + 1 else Success p),
              Failure := (if IsSuccess (StatusCode r) then Failure p else Failure p + 1)\<rparr>)"
  by (simp add: ResponsePack_AddResponse_def commit_def Let_def split: option.split)

lemma AddResponse_seq_Cons_snd:
  "snd (ResponsePack_AddResponse_seq p (r # rs)) =
     snd (ResponsePack_AddResponse_seq (snd (ResponsePack_AddResponse p r)) rs)"
  by (simp add: split_beta)

lemma AddResponse_seq_Cons_fst:
  "fst (ResponsePack_AddResponse_seq p (r # rs)) =
     (case fst (ResponsePack_AddResponse p r) of None \<Rightarrow> [] | Some x \<Rightarrow> [x]) @
     fst (ResponsePack_AddResponse_seq (snd (ResponsePack_AddResponse p r)) rs)"
  by (simp add: split_beta split: option.split)

lemma AddResponse_seq_snoc_snd:
  "snd (ResponsePack_AddResponse_seq p (rs @ [r])) =
     snd (ResponsePack_AddResponse (snd (ResponsePack_AddResponse_seq p rs)) r)"
  by (induction rs arbitrary: p) (simp_all add: split_beta)

lemma committed_snoc:
  "committed (rs @ [r]) = committed rs @ (case r of None \<Rightarrow> [] | Some x \<Rightarrow> [x])"
  by (induction rs rule: committed.induct) (auto split: option.splits)

lemma AddResponse_seq_represents:
  "represents (Responses p) h \<Longrightarrow>
   represents (Responses (snd (ResponsePack_AddResponse_seq p rs)))
     (h @ map (\<lambda>r. (Url r, r)) (committed rs))"
proof (induction rs rule: rev_induct)
  case Nil
  then show ?case by simp
next
  case (snoc r rs)
  show ?case
  proof (cases r)
    case None
    with snoc show ?thesis
      by (simp add: AddResponse_seq_snoc_snd committed_snoc AddResponse_nil)
  next
    case (Some x)
    with snoc show ?thesis
      using commit_represents
        [of "Responses (snd (ResponsePack_AddResponse_seq p rs))"
            "h @ map (\<lambda>r. (Url r, r)) (committed rs)" "Url x" x]
      by (simp add: AddResponse_seq_snoc_snd committed_snoc AddResponse_commit)
  qed
qed

lemma AddResponse_seq_counters:
  "Total (snd (ResponsePack_AddResponse_seq p rs)) = Total p + of_nat (length (committed rs)) \<and>
   Success (snd (ResponsePack_AddResponse_seq p rs)) =
     Success p + of_nat (length (filter (\<lambda>r. IsSuccess (StatusCode r)) (committed rs))) \<and>
   Failure (snd (ResponsePack_AddResponse_seq p rs)) =
     Failure p + of_nat (length (filter (\<lambda>r. \<not> IsSuccess (StatusCode r)) (committed rs))) \<and>
   Info (snd (ResponsePack_AddResponse_seq p rs)) = Info p"
proof (induction rs arbitrary: p)
  case Nil
  then show ?case by simp
next
  case (Cons r rs)
  show ?case
  proof (cases r)
    case None
    then show ?thesis
      using Cons [of p] by (simp add: AddResponse_nil AddResponse_seq_Cons_snd del: ResponsePack_AddResponse_seq.simps)
  next
    case (Some x)
    then show ?thesis
      using Cons [of "snd (ResponsePack_AddResponse p (Some x))"]
      by (simp add: AddResponse_commit AddResponse_seq_Cons_snd del: ResponsePack_AddResponse_seq.simps)
  qed
qed

lemma AddResponse_seq_errors:
  "fst (ResponsePack_AddResponse_seq p rs) =
     replicate (length (filter (\<lambda>r. r = None) rs)) ResponseIsNil"
proof (induction rs arbitrary: p)
  case Nil
  then show ?case by simp
next
  case (Cons r rs)
  show ?case
  proof (cases r)
    case None
    then show ?thesis
      using Cons [of p] by (simp add: AddResponse_nil AddResponse_seq_Cons_fst del: ResponsePack_AddResponse_seq.simps)
  next
    case (Some x)
    then show ?thesis
      using Cons [of "snd (ResponsePack_AddResponse p (Some x))"]
      by (simp add: AddResponse_commit AddResponse_seq_Cons_fst del: ResponsePack_AddResponse_seq.simps)
  qed
qed

subsection \<open>Counters\<close>

lemma AddResponse_seq_balance:
  "Total p = Success p + Failure p \<Longrightarrow>
   Total (snd (ResponsePack_AddResponse_seq p rs)) =
     Success (snd (ResponsePack_AddResponse_seq p rs)) +
     Failure (snd (ResponsePack_AddResponse_seq p rs))"
proof -
  assume "Total p = Success p + Failure p"
  moreover have "length (committed rs) =
      length (filter (\<lambda>r. IsSuccess (StatusCode r)) (committed rs)) +
      length (filter (\<lambda>r. \<not> IsSuccess (StatusCode r)) (committed rs))"
    by (simp add: sum_length_filter_compl)
  ultimately show ?thesis
    using AddResponse_seq_counters [of p rs] by simp
qed

lemma apply_mutation_balance:
  "Total p = Success p + Failure p \<Longrightarrow>
   Total (apply_mutation p m) = Success (apply_mutation p m) + Failure (apply_mutation p m)"
proof (cases m)
  case (Call_AddResponse r)
  then show "Total p = Success p + Failure p \<Longrightarrow> ?thesis"
    using AddResponse_seq_balance [of p "[r]"] by (simp add: split_beta)
next
  case (Call_BatchAddResponse n sched rs)
  then show "Total p = Success p + Failure p \<Longrightarrow> ?thesis"
    by (simp add: ResponsePack_BatchAddResponse_def Let_def AddResponse_seq_balance)
next
  case (Call_AddInfo k v)
  then show "Total p = Success p + Failure p \<Longrightarrow> ?thesis"
    by (simp add: ResponsePack_AddInfo_def)
qed

lemma mutations_balance:
  "Total p = Success p + Failure p \<Longrightarrow>
   Total (foldl apply_mutation p ms) =
     Success (foldl apply_mutation p ms) + Failure (foldl apply_mutation p ms)"
  by (induction ms arbitrary: p) (simp_all add: apply_mutation_balance)

text \<open>
  Claim C3.  Start from a freshly constructed \<^verbatim>\<open>ResponsePack\<close> and make any sequence of
  \<^verbatim>\<open>AddResponse\<close> calls; let \<open>N\<close> be the number of calls that succeed, that is, whose
  record is not nil.  Then \<open>Total = Success + Failure\<close>, \<open>Total\<close> is \<open>N\<close> (as a \<^verbatim>\<open>uint64\<close>),
  \<open>Success\<close> is the number of added records with a 2xx status code and \<open>Failure\<close> the number
  of all other added records.  Moreover \<open>Total = Success + Failure\<close> holds after any
  sequence of mutations of the pack (\<^verbatim>\<open>AddResponse\<close>, \<^verbatim>\<open>BatchAddResponse\<close> under any
  schedule, \<^verbatim>\<open>AddInfo\<close>).
\<close>

theorem counters_after_adds:
  "Total (snd (ResponsePack_AddResponse_seq NewResponsePack rs)) =
     Success (snd (ResponsePack_AddResponse_seq NewResponsePack rs)) +
     Failure (snd (ResponsePack_AddResponse_seq NewResponsePack rs)) \<and>
   Total (snd (ResponsePack_AddResponse_seq NewResponsePack rs)) =
     word_of_nat (length (committed rs)) \<and>
   unat (Total (snd (ResponsePack_AddResponse_seq NewResponsePack rs))) =
     length (committed rs) mod 2 ^ 64 \<and>
   Success (snd (ResponsePack_AddResponse_seq NewResponsePack rs)) =
     word_of_nat (length (filter (\<lambda>r. IsSuccess (StatusCode r)) (committed rs))) \<and>
   Failure (snd (ResponsePack_AddResponse_seq NewResponsePack rs)) =
     word_of_nat (length (filter (\<lambda>r. \<not> IsSuccess (StatusCode r)) (committed rs))) \<and>
   Total (foldl apply_mutation NewResponsePack ms) =
     Success (foldl apply_mutation NewResponsePack ms) +
     Failure (foldl apply_mutation NewResponsePack ms)"
proof -
  have fresh: "Total NewResponsePack = Success NewResponsePack + Failure NewResponsePack"
    by (simp add: NewResponsePack_def)
  have zero: "Total NewResponsePack = 0" "Success NewResponsePack = 0" "Failure NewResponsePack = 0"
    by (simp_all add: NewResponsePack_def)
  have t: "Total (snd (ResponsePack_AddResponse_seq NewResponsePack rs)) =
     word_of_nat (length (committed rs))"
    using AddResponse_seq_counters [of NewResponsePack rs] zero by simp
  have u: "unat (Total (snd (ResponsePack_AddResponse_seq NewResponsePack rs))) =
     length (committed rs) mod 2 ^ 64"
    by (simp add: t unat_of_nat)
  show ?thesis
    using AddResponse_seq_balance [OF fresh, of rs] mutations_balance [OF fresh, of ms]
      AddResponse_seq_counters [of NewResponsePack rs] zero u
    by simp
qed

subsection \<open>Round keys and counts\<close>

lemma commit_eq:
  assumes "represents m h"
  shows "commit u v m = AList.update u (rounds_from (Suc 0) (values_under u h @ [v])) m"
proof -
  from assms have look:
    "map_of m u = (if values_under u h = [] then None else Some (rounds_from (Suc 0) (values_under u h)))"
    by (simp add: represents_def)
  show ?thesis
  proof (cases "values_under u h = []")
    case True
    then show ?thesis
      by (simp add: commit_def look rounds_from_single del: AList.update.simps)
  next
    case False
    then show ?thesis
      by (simp add: commit_def look rounds_of_update)
  qed
qed

lemma foldl_commit_represents:
  "represents m h \<Longrightarrow> represents (foldl (\<lambda>m (u, v). commit u v m) m es) (h @ es)"
proof (induction es arbitrary: m h)
  case Nil
  then show ?case by simp
next
  case (Cons e es)
  obtain u v where e: "e = (u, v)" by (cases e)
  from Cons.prems have "represents (commit u v m) (h @ [(u, v)])"
    by (rule commit_represents)
  from Cons.IH [OF this] show ?case by (simp add: e)
qed

lemma entries_update_new:
  "map_of m u = None \<Longrightarrow> entries (AList.update u inner m) = entries m + length inner"
  by (induction m) (auto simp: entries_def split: if_splits)

lemma entries_update_old:
  "map_of m u = Some old \<Longrightarrow>
   entries (AList.update u inner m) + length old = entries m + length inner"
  by (induction m) (auto simp: entries_def split: if_splits)

lemma commit_entries:
  assumes "represents m h"
  shows "entries (commit u v m) = Suc (entries m)"
proof -
  from assms have look:
    "map_of m u = (if values_under u h = [] then None else Some (rounds_from (Suc 0) (values_under u h)))"
    by (simp add: represents_def)
  show ?thesis
  proof (cases "values_under u h = []")
    case True
    with look show ?thesis
      by (simp add: commit_eq [OF assms] entries_update_new)
  next
    case False
    with look have "map_of m u = Some (rounds_from (Suc 0) (values_under u h))" by simp
    from entries_update_old [OF this, of "rounds_from (Suc 0) (values_under u h @ [v])"]
    show ?thesis by (simp add: commit_eq [OF assms])
  qed
qed

lemma foldl_commit_entries:
  "represents m h \<Longrightarrow>
   entries (foldl (\<lambda>m (u, v). commit u v m) m es) = entries m + length es"
proof (induction es arbitrary: m h)
  case Nil
  then show ?case by simp
next
  case (Cons e es)
  obtain u v where e: "e = (u, v)" by (cases e)
  from Cons.prems have r: "represents (commit u v m) (h @ [(u, v)])"
    by (rule commit_represents)
  from Cons.IH [OF r] commit_entries [OF Cons.prems, of u v] show ?case
    by (simp add: e)
qed

lemma represents_length:
  assumes "represents m h"
  shows "length m = card (fst ` set h)"
proof -
  from assms have d: "distinct (map fst m)"
    and look: "\<And>url. map_of m url =
       (if values_under url h = [] then None else Some (rounds_from (Suc 0) (values_under url h)))"
    by (simp_all add: represents_def)
  have "values_under url h \<noteq> [] \<longleftrightarrow> url \<in> fst ` set h" for url
    by (auto simp: values_under_def filter_empty_conv image_iff)
  then have "dom (map_of m) = fst ` set h"
    by (auto simp: dom_def look)
  then have "fst ` set m = fst ` set h"
    by (simp add: dom_map_of_conv_image_fst)
  moreover from d have "card (fst ` set m) = length m"
    using distinct_card [of "map fst m"] by simp
  ultimately show ?thesis by simp
qed

lemma Responses_AddResponse_seq:
  "Responses (snd (ResponsePack_AddResponse_seq p rs)) =
     foldl (\<lambda>m (u, v). commit u v m) (Responses p) (map (\<lambda>r. (Url r, r)) (committed rs))"
proof (induction rs arbitrary: p)
  case Nil
  then show ?case by simp
next
  case (Cons r rs)
  show ?case
  proof (cases r)
    case None
    then show ?thesis
      using Cons [of p]
      by (simp add: AddResponse_nil AddResponse_seq_Cons_snd del: ResponsePack_AddResponse_seq.simps)
  next
    case (Some x)
    then show ?thesis
      using Cons [of "snd (ResponsePack_AddResponse p (Some x))"]
      by (simp add: AddResponse_commit AddResponse_seq_Cons_snd
               del: ResponsePack_AddResponse_seq.simps)
  qed
qed

lemma Compress_AddResponse_nil:
  "CompressResponsePack_AddResponse compress r None = (Some ResponseIsNil, r)"
  by (simp add: CompressResponsePack_AddResponse_def)

lemma Compress_AddResponse_commit:
  "CompressResponsePack_AddResponse compress (Some q) (Some x) =
     (case compress x of
        Inl err \<Rightarrow> (Some err, Some q)
      | Inr compressedData \<Rightarrow>
          (None, Some (q\<lparr>CompressedResponses :=
                          commit (Url x) compressedData (CompressedResponses q)\<rparr>)))"
  by (simp add: CompressResponsePack_AddResponse_def commit_def Let_def
           split: option.split sum.split)

lemma Compress_AddResponse_seq_Cons_snd:
  "snd (CompressResponsePack_AddResponse_seq compress r (x # xs)) =
     snd (CompressResponsePack_AddResponse_seq compress
            (snd (CompressResponsePack_AddResponse compress r x)) xs)"
  by (simp add: split_beta)

lemma Compress_AddResponse_seq_Cons_fst:
  "fst (CompressResponsePack_AddResponse_seq compress r (x # xs)) =
     (case fst (CompressResponsePack_AddResponse compress r x) of None \<Rightarrow> [] | Some e \<Rightarrow> [e]) @
     fst (CompressResponsePack_AddResponse_seq compress
            (snd (CompressResponsePack_AddResponse compress r x)) xs)"
  by (simp add: split_beta split: option.split)

lemma Compress_AddResponse_seq_commits:
  "snd (CompressResponsePack_AddResponse_seq compress (Some q) rs) =
     Some (q\<lparr>CompressedResponses :=
               foldl (\<lambda>m (u, v). commit u v m) (CompressedResponses q)
                 (committed_blobs compress rs)\<rparr>)"
proof (induction rs arbitrary: q)
  case Nil
  then show ?case by simp
next
  case (Cons r rs)
  show ?case
  proof (cases r)
    case None
    then show ?thesis
      using Cons [of q]
      by (simp add: Compress_AddResponse_nil Compress_AddResponse_seq_Cons_snd
               del: CompressResponsePack_AddResponse_seq.simps)
  next
    case (Some x)
    show ?thesis
    proof (cases "compress x")
      case (Inl err)
      with Some show ?thesis
        using Cons [of q]
        by (simp add: Compress_AddResponse_commit Compress_AddResponse_seq_Cons_snd
                 del: CompressResponsePack_AddResponse_seq.simps)
    next
      case (Inr b)
      with Some show ?thesis
        using Cons [of "q\<lparr>CompressedResponses := commit (Url x) b (CompressedResponses q)\<rparr>"]
        by (simp add: Compress_AddResponse_commit Compress_AddResponse_seq_Cons_snd
                 del: CompressResponsePack_AddResponse_seq.simps)
    qed
  qed
qed

lemma fold_count_entries:
  "fold (\<lambda>(outKey, outValue) counter. counter + length outValue) m c = c + entries m"
  by (induction m arbitrary: c) (auto simp: entries_def)

lemma GetResponseCount_entries:
  "CompressResponsePack_GetResponseCount r = entries (CompressedResponses r)"
  by (simp add: CompressResponsePack_GetResponseCount_def fold_count_entries)

lemma fresh_represents:
  "represents (Responses NewResponsePack) []"
  "represents (CompressedResponses NewCompressResponsePack) []"
  by (simp_all add: NewResponsePack_def NewCompressResponsePack_def represents_empty)

text \<open>
  Claim C4.  Start from a freshly constructed store (plain or compressed) and make any
  sequence of \<^verbatim>\<open>AddResponse\<close> calls.  For every URL, the inner map stored under that URL
  holds exactly the values of the successful calls for that URL, in call order, under the
  keys \<^verbatim>\<open>round_1\<close>, \<^verbatim>\<open>round_2\<close>, ..., \<^verbatim>\<open>round_k\<close>: the first insertion gets round 1 and each
  later one the current number of rounds plus 1.  These keys are pairwise distinct, since
  the decimal rendering of the round number is injective.  A URL without a successful call
  has no entry.
\<close>

theorem round_keys_contiguous:
  "map_of (Responses (snd (ResponsePack_AddResponse_seq NewResponsePack rs))) url =
     (if filter (\<lambda>r. Url r = url) (committed rs) = [] then None
      else Some (rounds_from 1 (filter (\<lambda>r. Url r = url) (committed rs)))) \<and>
   (\<exists>q. snd (CompressResponsePack_AddResponse_seq compress (Some NewCompressResponsePack) rs) =
          Some q \<and>
        map_of (CompressedResponses q) url =
          (if values_under url (committed_blobs compress rs) = [] then None
           else Some (rounds_from 1 (values_under url (committed_blobs compress rs))))) \<and>
   map fst (rounds_from 1 xs) = map round_key [1..<1 + length xs] \<and>
   map snd (rounds_from 1 xs) = xs \<and>
   distinct (map fst (rounds_from 1 xs)) \<and>
   inj round_key"
proof -
  have u: "values_under url (map (\<lambda>r. (Url r, r)) (committed rs)) =
           filter (\<lambda>r. Url r = url) (committed rs)"
    by (simp add: values_under_def filter_map comp_def)
  have "represents (Responses (snd (ResponsePack_AddResponse_seq NewResponsePack rs)))
          (map (\<lambda>r. (Url r, r)) (committed rs))"
    using foldl_commit_represents [OF fresh_represents(1)]
    by (simp add: Responses_AddResponse_seq)
  then have plain: "map_of (Responses (snd (ResponsePack_AddResponse_seq NewResponsePack rs))) url =
     (if filter (\<lambda>r. Url r = url) (committed rs) = [] then None
      else Some (rounds_from 1 (filter (\<lambda>r. Url r = url) (committed rs))))"
    by (simp add: represents_def u)
  have "represents (foldl (\<lambda>m (u, v). commit u v m)
          (CompressedResponses (NewCompressResponsePack :: 'a CompressResponsePack))
          (committed_blobs compress rs)) (committed_blobs compress rs)"
    using foldl_commit_represents [OF fresh_represents(2)] by simp
  then have compressed:
    "\<exists>q. snd (CompressResponsePack_AddResponse_seq compress (Some NewCompressResponsePack) rs) =
          Some q \<and>
        map_of (CompressedResponses q) url =
          (if values_under url (committed_blobs compress rs) = [] then None
           else Some (rounds_from 1 (values_under url (committed_blobs compress rs))))"
    by (simp add: Compress_AddResponse_seq_commits represents_def)
  show ?thesis
    using plain compressed keys_rounds_from [of 1 xs] distinct_rounds_from [of 1 xs]
    by (simp add: inj_round_key)
qed

text \<open>
  Claim C9.  After any sequence of \<^verbatim>\<open>AddResponse\<close> calls on a fresh store, \<^verbatim>\<open>Len\<close> of the
  plain pack is the number of distinct URLs among the added records, however many rounds
  each URL holds, while \<^verbatim>\<open>GetResponseCount\<close> of the compressed pack is the number of stored
  blobs, one per successful call, summed over all URLs.  For any pack, \<^verbatim>\<open>Len\<close> is the number
  of URL keys that \<^verbatim>\<open>GetKeysOfResponses\<close> lists, and \<^verbatim>\<open>GetResponseCount\<close> is the sum of the
  sizes of the inner maps.
\<close>

theorem count_units:
  "ResponsePack_Len (Some (snd (ResponsePack_AddResponse_seq NewResponsePack rs))) =
     card (Url ` set (committed rs)) \<and>
   (\<exists>q. snd (CompressResponsePack_AddResponse_seq compress (Some NewCompressResponsePack) rs) =
          Some q \<and>
        CompressResponsePack_GetResponseCount q = length (committed_blobs compress rs)) \<and>
   ResponsePack_Len (Some p) = length (ResponsePack_GetKeysOfResponses p) \<and>
   CompressResponsePack_GetResponseCount r = entries (CompressedResponses r)"
proof -
  have "represents (Responses (snd (ResponsePack_AddResponse_seq NewResponsePack rs)))
          (map (\<lambda>r. (Url r, r)) (committed rs))"
    using foldl_commit_represents [OF fresh_represents(1)]
    by (simp add: Responses_AddResponse_seq)
  from represents_length [OF this]
  have plain: "ResponsePack_Len (Some (snd (ResponsePack_AddResponse_seq NewResponsePack rs))) =
     card (Url ` set (committed rs))"
    by (simp add: ResponsePack_Len_def image_image)
  have "entries (foldl (\<lambda>m (u, v). commit u v m)
          (CompressedResponses (NewCompressResponsePack :: 'a CompressResponsePack))
          (committed_blobs compress rs)) = length (committed_blobs compress rs)"
    using foldl_commit_entries [OF fresh_represents(2), of "committed_blobs compress rs"]
    by (simp add: NewCompressResponsePack_def entries_def)
  then show ?thesis
    using plain
    by (simp add: Compress_AddResponse_seq_commits GetResponseCount_entries
          ResponsePack_Len_def ResponsePack_GetKeysOfResponses_def)
qed

subsection \<open>Error report on empty and all-success packs, deletion\<close>

lemma report_rounds_all_success:
  "\<forall>e \<in> set inner. IsSuccess (StatusCode (snd e)) \<Longrightarrow> report_rounds outKey inner out = out"
  by (induction outKey inner out rule: report_rounds.induct) auto

lemma report_urls_all_success:
  "\<forall>(url, inner) \<in> set m. \<forall>(key, resp) \<in> set inner. IsSuccess (StatusCode resp) \<Longrightarrow>
   report_urls m out = out"
proof (induction m out rule: report_urls.induct)
  case (1 out)
  then show ?case by simp
next
  case (2 outKey outValue rest out)
  from "2.prems" have "\<forall>e \<in> set outValue. IsSuccess (StatusCode (snd e))"
    by auto
  then have "report_rounds outKey outValue out = out"
    by (rule report_rounds_all_success)
  with 2 show ?case by simp
qed

text \<open>
  Claim C10.  When a \<^verbatim>\<open>ResponsePack\<close> holds at least one URL and every stored response has
  a success (2xx) status code, \<^verbatim>\<open>GetErrorReport\<close> returns an empty map and no error.  The
  error \<^verbatim>\<open>no responses found\<close> is returned exactly when the pack holds no entry at all, and
  on a non-nil pack it is the only error.
\<close>

theorem error_report_all_success:
  "(Responses p \<noteq> [] \<and>
    (\<forall>(url, inner) \<in> set (Responses p). \<forall>(key, resp) \<in> set inner. IsSuccess (StatusCode resp))
      \<longrightarrow> ResponsePack_GetErrorReport (Some p) = Inr []) \<and>
   (ResponsePack_GetErrorReport (Some p) = Inl NoResponsesFound \<longleftrightarrow> Responses p = []) \<and>
   (isl (ResponsePack_GetErrorReport (Some p)) \<longleftrightarrow> Responses p = [])"
  using report_urls_all_success [of "Responses p" "[]"]
  by (auto simp: ResponsePack_GetErrorReport_def ResponsePack_Len_def)

lemma one_ok_pack:
  "snd (ResponsePack_AddResponse_seq NewResponsePack
          [Some (example_response ''https://example.com/api1'' 200)]) =
     \<lparr>Responses = [(''https://example.com/api1'',
                     [(''round_1'', example_response ''https://example.com/api1'' 200)])],
      Total = 1, Success = 1, Failure = 0, Info = []\<rparr>"
  by (simp add: ResponsePack_AddResponse_def NewResponsePack_def example_response_def IsSuccess_def)

theorem error_report_all_success_witness:
  "ResponsePack_GetErrorReport (Some (snd (ResponsePack_AddResponse_seq NewResponsePack
          [Some (example_response ''https://example.com/api1'' 200)]))) = Inr []"
proof -
  let ?p = "snd (ResponsePack_AddResponse_seq NewResponsePack
          [Some (example_response ''https://example.com/api1'' 200)])"
  have h1: "Responses ?p \<noteq> []" unfolding one_ok_pack by simp
  have h2: "\<forall>(url, inner) \<in> set (Responses ?p). \<forall>(key, resp) \<in> set inner. IsSuccess (StatusCode resp)"
    unfolding one_ok_pack by (simp add: example_response_def IsSuccess_def)
  from error_report_all_success [of ?p] h1 h2 show ?thesis by blast
qed

lemma errors_of_GetResponse:
  "errors_of (map (ResponsePack_GetResponse p) us) =
     map ResponseNotFound (filter (\<lambda>u. map_of (Responses p) u = None) us)"
  by (induction us) (auto simp: ResponsePack_GetResponse_def split: option.splits)

lemma BatchGetResponse_errors:
  "snd (ResponsePack_BatchGetResponse sched p urls) =
     map ResponseNotFound
       (filter (\<lambda>u. map_of (Responses p) u = None) (scheduled sched urls))"
  by (simp add: ResponsePack_BatchGetResponse_def Let_def errors_of_GetResponse)

lemma results_of_fresh:
  "results_of (map (ResponsePack_GetResponse NewResponsePack) us) = []"
  by (induction us) (simp_all add: ResponsePack_GetResponse_def NewResponsePack_def)

lemma BatchGetResponse_fresh_results:
  "fst (ResponsePack_BatchGetResponse sched NewResponsePack urls) = []"
  by (simp add: ResponsePack_BatchGetResponse_def Let_def results_of_fresh)

text \<open>
  Claim C7.  \<^verbatim>\<open>GetErrorReport\<close> on a freshly constructed pack returns the error
  \<^verbatim>\<open>no responses found\<close>, not an empty map, and \<^verbatim>\<open>GetErrorReportString\<close>, which renders
  the report, passes that error on.  The other read operations have no such error: on the
  fresh pack \<^verbatim>\<open>Len\<close> is 0, \<^verbatim>\<open>GetKeysOfResponses\<close> is the empty slice and a
  \<^verbatim>\<open>BatchGetResponse\<close> for no URL returns an empty map without errors; a \<^verbatim>\<open>GetResponse\<close>
  fails exactly when its URL has no entry, whatever else the pack holds, and when it fails
  the error is the not-found error of that URL; for every pack, URL list and schedule the
  errors of \<^verbatim>\<open>BatchGetResponse\<close> are exactly the not-found errors of the requested URLs
  that have no entry, so neither returns the emptiness error; \<^verbatim>\<open>Len\<close> and
  \<^verbatim>\<open>GetKeysOfResponses\<close> return the size and the keys of the map for every pack and have
  no error result.  \<^verbatim>\<open>GetErrorReport\<close> fails exactly when the pack is empty.
\<close>

theorem error_report_empty_store:
  "ResponsePack_GetErrorReport (Some NewResponsePack) = Inl NoResponsesFound \<and>
   ResponsePack_GetErrorReport (Some NewResponsePack) \<noteq> Inr [] \<and>
   ResponsePack_GetErrorReportString (Some NewResponsePack) =
     (''no responses found'', Some NoResponsesFound) \<and>
   ResponsePack_Len (Some NewResponsePack) = 0 \<and>
   ResponsePack_GetKeysOfResponses NewResponsePack = [] \<and>
   ResponsePack_BatchGetResponse sched NewResponsePack [] = ([], []) \<and>
   (isl (ResponsePack_GetResponse p url) \<longleftrightarrow> map_of (Responses p) url = None) \<and>
   (isl (ResponsePack_GetErrorReport (Some p)) \<longleftrightarrow> Responses p = []) \<and>
   ResponsePack_GetResponse p url =
     (case map_of (Responses p) url of
        None \<Rightarrow> Inl (ResponseNotFound url)
      | Some inner \<Rightarrow> Inr (map snd inner)) \<and>
   snd (ResponsePack_BatchGetResponse sched p urls) =
     map ResponseNotFound
       (filter (\<lambda>u. map_of (Responses p) u = None) (scheduled sched urls)) \<and>
   NoResponsesFound \<notin> set (snd (ResponsePack_BatchGetResponse sched p urls)) \<and>
   ResponsePack_BatchGetResponse sched NewResponsePack urls =
     ([], map ResponseNotFound (scheduled sched urls)) \<and>
   ResponsePack_Len (Some p) = length (Responses p) \<and>
   ResponsePack_GetKeysOfResponses p = map fst (Responses p)"
proof -
  have fresh: "ResponsePack_GetErrorReport (Some NewResponsePack) = Inl NoResponsesFound \<and>
   ResponsePack_GetErrorReport (Some NewResponsePack) \<noteq> Inr [] \<and>
   ResponsePack_GetErrorReportString (Some NewResponsePack) =
     (''no responses found'', Some NoResponsesFound) \<and>
   ResponsePack_Len (Some NewResponsePack) = 0 \<and>
   ResponsePack_GetKeysOfResponses NewResponsePack = [] \<and>
   ResponsePack_BatchGetResponse sched NewResponsePack [] = ([], []) \<and>
   (isl (ResponsePack_GetResponse p url) \<longleftrightarrow> map_of (Responses p) url = None) \<and>
   (isl (ResponsePack_GetErrorReport (Some p)) \<longleftrightarrow> Responses p = [])"
    by (simp add: ResponsePack_GetErrorReport_def ResponsePack_Len_def NewResponsePack_def
        ResponsePack_GetKeysOfResponses_def ResponsePack_BatchGetResponse_def scheduled_def
        ResponsePack_GetResponse_def ResponsePack_GetErrorReportString_def split: option.split)
  have errs: "snd (ResponsePack_BatchGetResponse sched p urls) =
     map ResponseNotFound
       (filter (\<lambda>u. map_of (Responses p) u = None) (scheduled sched urls))"
    by (rule BatchGetResponse_errors)
  then have no: "NoResponsesFound \<notin> set (snd (ResponsePack_BatchGetResponse sched p urls))"
    by auto
  have empty: "ResponsePack_BatchGetResponse sched NewResponsePack urls =
     ([], map ResponseNotFound (scheduled sched urls))"
    using BatchGetResponse_errors [of sched NewResponsePack urls]
      BatchGetResponse_fresh_results [of sched urls]
    by (simp add: prod_eq_iff NewResponsePack_def)
  show ?thesis
    using fresh errs no empty
    by (simp add: ResponsePack_GetResponse_def ResponsePack_Len_def
          ResponsePack_GetKeysOfResponses_def)
qed

text \<open>
  Claim C8.  \<^verbatim>\<open>DeleteResponse\<close> of the compressed store, for a URL that is present with any
  number of rounds, returns no error and removes the URL with all its rounds: a following
  \<^verbatim>\<open>GetResponse\<close> for that URL returns the not-found error, and every other URL and the
  meta information are untouched.  For a URL that is absent it returns the not-found error
  and the store is unchanged.
\<close>

theorem delete_removes_all_rounds:
  "(map_of (CompressedResponses r) url \<noteq> None \<longrightarrow>
      fst (CompressResponsePack_DeleteResponse r url) = None \<and>
      map_of (CompressedResponses (snd (CompressResponsePack_DeleteResponse r url))) url = None \<and>
      CompressResponsePack_GetResponse decompress (snd (CompressResponsePack_DeleteResponse r url)) url =
        Inl (ResponseNotFound url) \<and>
      (\<forall>u. u \<noteq> url \<longrightarrow>
         map_of (CompressedResponses (snd (CompressResponsePack_DeleteResponse r url))) u =
         map_of (CompressedResponses r) u) \<and>
      MetaInfo (snd (CompressResponsePack_DeleteResponse r url)) = MetaInfo r) \<and>
   (map_of (CompressedResponses r) url = None \<longrightarrow>
      CompressResponsePack_DeleteResponse r url = (Some (ResponseNotFound url), r))"
proof -
  have m: "map_of (if length (AList.delete url m) = 0 then [] else AList.delete url m) =
           (map_of m)(url := None)" for m :: "(string \<times> (string \<times> 'a) list) list"
    by (simp add: delete_conv' flip: delete_conv')
  show ?thesis
    by (auto simp: CompressResponsePack_DeleteResponse_def CompressResponsePack_GetResponse_def
          Let_def m simp del: length_0_conv split: option.splits)
qed


lemma two_rounds_built:
  "CompressResponsePack_AddResponse_seq Inr (Some NewCompressResponsePack)
     [Some api1_first, Some api1_second] = ([], Some two_rounds)"
  by code_simp

theorem delete_removes_all_rounds_witness:
  "CompressResponsePack_AddResponse_seq Inr (Some NewCompressResponsePack)
     [Some api1_first, Some api1_second] = ([], Some two_rounds) \<and>
   map_of (CompressedResponses two_rounds) ''https://example.com/api1'' =
     Some [(''round_1'', api1_first), (''round_2'', api1_second)] \<and>
   fst (CompressResponsePack_DeleteResponse two_rounds ''https://example.com/api1'') = None \<and>
   CompressResponsePack_GetResponse Inr
     (snd (CompressResponsePack_DeleteResponse two_rounds ''https://example.com/api1''))
     ''https://example.com/api1'' = Inl (ResponseNotFound ''https://example.com/api1'') \<and>
   map_of (CompressedResponses two_rounds) ''https://example.com/api2'' = None \<and>
   CompressResponsePack_DeleteResponse two_rounds ''https://example.com/api2'' =
     (Some (ResponseNotFound ''https://example.com/api2''), two_rounds)"
proof -
  have present: "map_of (CompressedResponses two_rounds) ''https://example.com/api1'' =
     Some [(''round_1'', api1_first), (''round_2'', api1_second)]"
    by (simp add: two_rounds_def)
  have absent: "map_of (CompressedResponses two_rounds) ''https://example.com/api2'' = None"
    by (simp add: two_rounds_def)
  from present have p': "map_of (CompressedResponses two_rounds) ''https://example.com/api1'' \<noteq> None"
    by simp
  show ?thesis
    using delete_removes_all_rounds [of two_rounds "''https://example.com/api1''" Inr]
      delete_removes_all_rounds [of two_rounds "''https://example.com/api2''" Inr]
      present absent p' two_rounds_built
    by blast
qed

subsection \<open>Batch add and the error report\<close>

lemma map_nth_take: "n \<le> length xs \<Longrightarrow> map (\<lambda>i. xs ! i) [0..<n] = take n xs"
  by (rule nth_equalityI) simp_all

lemma mset_scheduled:
  assumes "is_schedule n sched" and "n \<le> length xs"
  shows "mset (map (\<lambda>i. xs ! i) (filter (\<lambda>i. i < n) sched)) = mset (take n xs)"
proof -
  from assms(1) have m: "mset sched = mset [0..<n]" by (simp add: is_schedule_def)
  then have "set sched = {0..<n}" by (metis mset_eq_setD set_upt)
  then have "filter (\<lambda>i. i < n) sched = sched" by (auto simp: filter_id_conv)
  then have "mset (map (\<lambda>i. xs ! i) (filter (\<lambda>i. i < n) sched)) =
             image_mset (\<lambda>i. xs ! i) (mset [0..<n])"
    using m by (metis mset_map)
  also have "\<dots> = mset (map (\<lambda>i. xs ! i) [0..<n])" by simp
  finally show ?thesis using assms(2) by (simp add: map_nth_take)
qed

lemma mset_scheduled_all:
  "is_schedule (length xs) sched \<Longrightarrow> mset (scheduled sched xs) = mset xs"
  using mset_scheduled [of "length xs" sched xs] by (simp add: scheduled_def)

lemma committed_filter: "committed rs = map the (filter (\<lambda>r. r \<noteq> None) rs)"
  by (induction rs rule: committed.induct) simp_all

lemma length_filter_mset:
  "mset xs = mset ys \<Longrightarrow> length (filter P xs) = length (filter P ys)"
  by (metis mset_filter size_mset)

lemma length_committed_mset:
  "mset rs = mset rs' \<Longrightarrow> length (committed rs) = length (committed rs')"
  by (simp add: committed_filter length_filter_mset [of rs rs'])

lemma length_nil_mset:
  "mset rs = mset rs' \<Longrightarrow>
   length (filter (\<lambda>r. r = None) rs) = length (filter (\<lambda>r. r = None) rs')"
  by (rule length_filter_mset)

lemma BatchAddResponse_first_workers_only:
  assumes "is_schedule (min numCPU (length responses)) sched"
  shows "Total (snd (ResponsePack_BatchAddResponse numCPU sched p responses)) =
           Total p + word_of_nat (length (committed (take numCPU responses)))"
    and "length (fst (ResponsePack_BatchAddResponse numCPU sched p responses)) =
           length (filter (\<lambda>r. r = None) (take numCPU responses))"
proof -
  let ?n = "min numCPU (length responses)"
  let ?items = "map (\<lambda>i. responses ! i) (filter (\<lambda>i. i < ?n) sched)"
  have n: "(if length responses < numCPU then length responses else numCPU) = ?n"
    by (simp add: min_def)
  have run: "ResponsePack_BatchAddResponse numCPU sched p responses =
             ResponsePack_AddResponse_seq p ?items"
    by (simp add: ResponsePack_BatchAddResponse_def Let_def n del: min_less_iff_conj)
  have "mset ?items = mset (take ?n responses)"
    using assms by (intro mset_scheduled) simp_all
  moreover have "take ?n responses = take numCPU responses"
    by (simp add: min_def)
  ultimately have m: "mset ?items = mset (take numCPU responses)" by simp
  show "Total (snd (ResponsePack_BatchAddResponse numCPU sched p responses)) =
           Total p + word_of_nat (length (committed (take numCPU responses)))"
    using AddResponse_seq_counters [of p ?items] length_committed_mset [OF m]
    by (simp only: run)
  show "length (fst (ResponsePack_BatchAddResponse numCPU sched p responses)) =
           length (filter (\<lambda>r. r = None) (take numCPU responses))"
    using AddResponse_seq_errors [of p ?items] length_nil_mset [OF m]
    by (simp only: run length_replicate)
qed

text \<open>
  Claim C1.  The claim says that \<^verbatim>\<open>BatchAddResponse\<close> adds every record of its input once,
  so that \<open>K\<close> records of which \<open>J\<close> are nil give \<open>J\<close> errors and raise \<open>Total\<close> by \<open>K - J\<close>.
  The plain pack does not: it starts \<open>min(NumCPU, K)\<close> goroutines and goroutine \<open>i\<close> adds
  only \<^verbatim>\<open>responses[i]\<close> (lemma \<open>BatchAddResponse_first_workers_only\<close>, for every schedule).
  With two CPUs and the three records of the repository's test, under either order of the
  two goroutines, the third record is never added and \<open>Total\<close> is 2; with a nil record in
  third place no error is returned.  The compressed pack, whose workers drain a channel
  that receives every record, stores all three (lemma \<open>Compress_BatchAddResponse_all\<close> in
  general).
\<close>

theorem batch_add_stops_at_worker_count:
  "ResponsePack_BatchAddResponse 2 [0, 1] NewResponsePack
     [Some api1_first, Some api2_created, Some api3_missing] =
     ([], \<lparr>Responses = [(''https://example.com/api1'', [(''round_1'', api1_first)]),
                        (''https://example.com/api2'', [(''round_1'', api2_created)])],
           Total = 2, Success = 2, Failure = 0, Info = []\<rparr>) \<and>
   ResponsePack_BatchAddResponse 2 [1, 0] NewResponsePack
     [Some api1_first, Some api2_created, Some api3_missing] =
     ([], \<lparr>Responses = [(''https://example.com/api2'', [(''round_1'', api2_created)]),
                        (''https://example.com/api1'', [(''round_1'', api1_first)])],
           Total = 2, Success = 2, Failure = 0, Info = []\<rparr>) \<and>
   ResponsePack_BatchAddResponse 2 [0, 1] NewResponsePack
     [Some api1_first, Some api2_created, None] =
     ([], \<lparr>Responses = [(''https://example.com/api1'', [(''round_1'', api1_first)]),
                        (''https://example.com/api2'', [(''round_1'', api2_created)])],
           Total = 2, Success = 2, Failure = 0, Info = []\<rparr>) \<and>
   CompressResponsePack_BatchAddResponse Inr 2 [0, 1, 2] (Some NewCompressResponsePack)
     [Some api1_first, Some api2_created, Some api3_missing] =
     ([], Some \<lparr>CompressedResponses =
                   [(''https://example.com/api1'', [(''round_1'', api1_first)]),
                    (''https://example.com/api2'', [(''round_1'', api2_created)]),
                    (''https://example.com/api3'', [(''round_1'', api3_missing)])],
                 MetaInfo = []\<rparr>)"
  by code_simp


lemma committed_blobs_filter:
  "length (committed_blobs compress rs) =
     length (filter (\<lambda>r. case r of None \<Rightarrow> False | Some x \<Rightarrow> \<not> isl (compress x)) rs)"
  by (induction compress rs rule: committed_blobs.induct) (auto split: sum.splits)

lemma Compress_AddResponse_seq_errors:
  "length (fst (CompressResponsePack_AddResponse_seq compress (Some q) rs)) +
     length (committed_blobs compress rs) = length rs"
proof (induction rs arbitrary: q)
  case Nil
  then show ?case by simp
next
  case (Cons r rs)
  show ?case
  proof (cases r)
    case None
    then show ?thesis
      using Cons [of q]
      by (simp add: Compress_AddResponse_nil Compress_AddResponse_seq_Cons_fst
               del: CompressResponsePack_AddResponse_seq.simps)
  next
    case (Some x)
    show ?thesis
    proof (cases "compress x")
      case (Inl err)
      with Some show ?thesis
        using Cons [of q]
        by (simp add: Compress_AddResponse_commit Compress_AddResponse_seq_Cons_fst
                 del: CompressResponsePack_AddResponse_seq.simps)
    next
      case (Inr b)
      with Some show ?thesis
        using Cons [of "q\<lparr>CompressedResponses := commit (Url x) b (CompressedResponses q)\<rparr>"]
        by (simp add: Compress_AddResponse_commit Compress_AddResponse_seq_Cons_fst
                 del: CompressResponsePack_AddResponse_seq.simps)
    qed
  qed
qed

lemma Compress_AddResponse_seq_count:
  "\<exists>q. snd (CompressResponsePack_AddResponse_seq compress (Some NewCompressResponsePack) rs) =
          Some q \<and>
        CompressResponsePack_GetResponseCount q = length (committed_blobs compress rs)"
proof -
  have "entries (foldl (\<lambda>m (u, v). commit u v m)
          (CompressedResponses (NewCompressResponsePack :: 'a CompressResponsePack))
          (committed_blobs compress rs)) = length (committed_blobs compress rs)"
    using foldl_commit_entries [OF fresh_represents(2), of "committed_blobs compress rs"]
    by (simp add: NewCompressResponsePack_def entries_def)
  then show ?thesis
    by (simp add: Compress_AddResponse_seq_commits GetResponseCount_entries)
qed

lemma Compress_BatchAddResponse_all:
  assumes "0 < numCPU" and "is_schedule (length responses) sched"
  shows "\<exists>q. snd (CompressResponsePack_BatchAddResponse compress numCPU sched
                    (Some NewCompressResponsePack) responses) = Some q \<and>
              CompressResponsePack_GetResponseCount q =
                length (committed_blobs compress responses)"
    and "length (fst (CompressResponsePack_BatchAddResponse compress numCPU sched
                    (Some NewCompressResponsePack) responses)) +
           length (committed_blobs compress responses) = length responses"
proof -
  let ?items = "scheduled sched responses"
  have m: "mset ?items = mset responses"
    using assms(2) by (rule mset_scheduled_all)
  then have len: "length ?items = length responses"
    by (rule mset_eq_length)
  have blobs: "length (committed_blobs compress ?items) = length (committed_blobs compress responses)"
    using length_filter_mset [OF m] by (simp only: committed_blobs_filter)
  have count: "\<exists>q. snd (CompressResponsePack_AddResponse_seq compress
                          (Some NewCompressResponsePack) xs) = Some q \<and>
          CompressResponsePack_GetResponseCount q = length (committed_blobs compress xs)" for xs
    by (rule Compress_AddResponse_seq_count)
  show "\<exists>q. snd (CompressResponsePack_BatchAddResponse compress numCPU sched
                    (Some NewCompressResponsePack) responses) = Some q \<and>
              CompressResponsePack_GetResponseCount q =
                length (committed_blobs compress responses)"
  proof (cases "responses = []")
    case True
    then show ?thesis
      by (simp add: CompressResponsePack_BatchAddResponse_def GetResponseCount_entries
            NewCompressResponsePack_def entries_def)
  next
    case False
    with assms(1) have "CompressResponsePack_BatchAddResponse compress numCPU sched
        (Some NewCompressResponsePack) responses =
        CompressResponsePack_AddResponse_seq compress (Some NewCompressResponsePack) ?items"
      by (simp add: CompressResponsePack_BatchAddResponse_def Let_def)
    with count [of ?items] blobs show ?thesis by simp
  qed
  show "length (fst (CompressResponsePack_BatchAddResponse compress numCPU sched
                    (Some NewCompressResponsePack) responses)) +
           length (committed_blobs compress responses) = length responses"
  proof (cases "responses = []")
    case True
    then show ?thesis
      by (simp add: CompressResponsePack_BatchAddResponse_def)
  next
    case False
    with assms(1) have "CompressResponsePack_BatchAddResponse compress numCPU sched
        (Some NewCompressResponsePack) responses =
        CompressResponsePack_AddResponse_seq compress (Some NewCompressResponsePack) ?items"
      by (simp add: CompressResponsePack_BatchAddResponse_def Let_def)
    with Compress_AddResponse_seq_errors [of compress NewCompressResponsePack ?items] blobs len
    show ?thesis by simp
  qed
qed

lemma set_update_subset: "set (AList.update k v al) \<subseteq> insert (k, v) (set al)"
  by (induction al) auto

lemma report_rounds_single:
  "\<forall>e \<in> set out. length (snd e) = 1 \<Longrightarrow>
   \<forall>e \<in> set (report_rounds outKey inner out). length (snd e) = 1"
proof (induction outKey inner out rule: report_rounds.induct)
  case (1 outKey out)
  then show ?case by simp
next
  case (2 outKey inKey inValue rest out)
  have "\<forall>e \<in> set (AList.update outKey (AList.update inKey inValue []) out). length (snd e) = 1"
    using "2.prems" set_update_subset [of outKey "AList.update inKey inValue []" out]
    by auto
  with 2 show ?case by simp
qed

lemma report_urls_single:
  "\<forall>e \<in> set out. length (snd e) = 1 \<Longrightarrow>
   \<forall>e \<in> set (report_urls m out). length (snd e) = 1"
proof (induction m out rule: report_urls.induct)
  case (1 out)
  then show ?case by simp
next
  case (2 outKey outValue rest out)
  from "2.prems" have "\<forall>e \<in> set (report_rounds outKey outValue out). length (snd e) = 1"
    by (rule report_rounds_single)
  with 2 show ?case by simp
qed

lemma report_rounds_keys:
  "fst ` set (report_rounds outKey inner out) =
     fst ` set out \<union> (if \<exists>e \<in> set inner. \<not> IsSuccess (StatusCode (snd e)) then {outKey} else {})"
  by (induction outKey inner out rule: report_rounds.induct) (auto simp: dom_update)

lemma report_urls_keys:
  "fst ` set (report_urls m out) =
     fst ` set out \<union>
     {url. \<exists>inner. (url, inner) \<in> set m \<and> (\<exists>e \<in> set inner. \<not> IsSuccess (StatusCode (snd e)))}"
  by (induction m out rule: report_urls.induct) (auto simp: report_rounds_keys split: if_splits)

text \<open>
  Claim C5.  The claim says that every failing round of a URL contributes an entry to the
  error report.  \<^verbatim>\<open>GetErrorReport\<close> has one entry per URL with at least one failing round
  (lemma \<open>report_urls_keys\<close>), but it runs \<^verbatim>\<open>output[outKey] = make(...)\<close> for each failing
  round, so each inner map of the report holds a single round (lemma
  \<open>report_urls_single\<close>).  For the URL \<^verbatim>\<open>https://example.com/api3\<close> added twice, with status
  404 and then 500, the report keeps only the round that the loop visits last, in either
  iteration order of the inner map.
\<close>

theorem error_report_keeps_one_round:
  "ResponsePack_AddResponse_seq NewResponsePack [Some api3_missing, Some api3_failed] =
     ([], \<lparr>Responses = [(''https://example.com/api3'',
                          [(''round_1'', api3_missing), (''round_2'', api3_failed)])],
           Total = 2, Success = 0, Failure = 2, Info = []\<rparr>) \<and>
   ResponsePack_GetErrorReport
     (Some \<lparr>Responses = [(''https://example.com/api3'',
                          [(''round_1'', api3_missing), (''round_2'', api3_failed)])],
           Total = 2, Success = 0, Failure = 2, Info = []\<rparr>) =
     Inr [(''https://example.com/api3'', [(''round_2'', api3_failed)])] \<and>
   ResponsePack_GetErrorReport
     (Some \<lparr>Responses = [(''https://example.com/api3'',
                          [(''round_2'', api3_failed), (''round_1'', api3_missing)])],
           Total = 2, Success = 0, Failure = 2, Info = []\<rparr>) =
     Inr [(''https://example.com/api3'', [(''round_1'', api3_missing)])]"
  by code_simp

subsection \<open>Batch get\<close>

lemma fold_rounds_from:
  "fold (\<lambda>(index, response) inner. AList.update (round_key index) response inner)
        (List.enumerate (n + length ys) xs) (rounds_from n ys) = rounds_from n (ys @ xs)"
proof (induction xs arbitrary: ys)
  case Nil
  then show ?case by simp
next
  case (Cons x xs)
  from Cons [of "ys @ [x]"] show ?case
    by (simp add: rounds_from_update)
qed

lemma fold_rounds_from_0:
  "fold (\<lambda>(index, response) inner. AList.update (round_key index) response inner)
        (List.enumerate 0 xs) [] = rounds_from 0 xs"
  using fold_rounds_from [of 0 "[]" xs] by (simp add: rounds_from_def)

lemma map_of_fold_update_other:
  "\<forall>x \<in> set xs. f x \<noteq> k \<Longrightarrow>
   map_of (fold (\<lambda>x out. AList.update (f x) (g x) out) xs out0) k = map_of out0 k"
  by (induction xs arbitrary: out0) (auto simp: update_conv')

lemma map_of_fold_update:
  "\<forall>x \<in> set xs. f x = k \<longrightarrow> g x = v \<Longrightarrow> \<exists>x \<in> set xs. f x = k \<Longrightarrow>
   map_of (fold (\<lambda>x out. AList.update (f x) (g x) out) xs out0) k = Some v"
proof (induction xs arbitrary: out0)
  case Nil
  then show ?case by simp
next
  case (Cons x xs)
  show ?case
  proof (cases "\<exists>y \<in> set xs. f y = k")
    case True
    with Cons show ?thesis by simp
  next
    case False
    with Cons.prems have "f x = k" and "g x = v" by auto
    with False show ?thesis
      by (simp add: map_of_fold_update_other update_conv')
  qed
qed

lemma set_results_of: "set (results_of os) = {v. Inr v \<in> set os \<and> v \<noteq> []}"
  by (induction os rule: results_of.induct) auto

lemma set_errors_of: "set (errors_of os) = {e. Inl e \<in> set os}"
  by (induction os rule: errors_of.induct) auto

lemma set_scheduled: "is_schedule (length xs) sched \<Longrightarrow> set (scheduled sched xs) = set xs"
  by (metis mset_scheduled_all set_mset_mset)

lemma BatchGetResponse_fst:
  "fst (ResponsePack_BatchGetResponse sched p urls) =
     fold (\<lambda>result out. AList.update (Url (result ! 0)) (rounds_from 0 result) out)
       (results_of (map (ResponsePack_GetResponse p) (scheduled sched urls))) []"
  by (simp add: ResponsePack_BatchGetResponse_def Let_def fold_rounds_from_0)

lemma own_url_first:
  assumes "each_under_own_url p" and "map_of (Responses p) u = Some inner" and "inner \<noteq> []"
  shows "Url (map snd inner ! 0) = u"
proof -
  from assms(2) have "(u, inner) \<in> set (Responses p)" by (rule map_of_SomeD)
  with assms(1) have "\<forall>e \<in> set inner. Url (snd e) = u"
    by (fastforce simp: each_under_own_url_def list_all_iff)
  moreover from assms(3) have "inner ! 0 \<in> set inner" by simp
  ultimately show ?thesis using assms(3) by simp
qed

lemma BatchGetResponse_present:
  assumes sched: "is_schedule (length urls) sched"
    and req: "url \<in> set urls"
    and stored: "map_of (Responses p) url = Some stored" "stored \<noteq> []"
    and own: "each_under_own_url p"
  shows "map_of (fst (ResponsePack_BatchGetResponse sched p urls)) url =
           Some (rounds_from 0 (map snd stored))"
proof -
  let ?os = "map (ResponsePack_GetResponse p) (scheduled sched urls)"
  have items: "set (scheduled sched urls) = set urls"
    using sched by (rule set_scheduled)
  have a: "\<forall>res \<in> set (results_of ?os). Url (res ! 0) = url \<longrightarrow>
             rounds_from 0 res = rounds_from 0 (map snd stored)"
  proof (intro ballI impI)
    fix res
    assume "res \<in> set (results_of ?os)" and key: "Url (res ! 0) = url"
    then obtain u where "ResponsePack_GetResponse p u = Inr res" and ne: "res \<noteq> []"
      by (auto simp: set_results_of)
    then obtain inner where inner: "map_of (Responses p) u = Some inner" "res = map snd inner"
      by (auto simp: ResponsePack_GetResponse_def split: option.splits)
    with ne have "inner \<noteq> []" by auto
    from own_url_first [OF own inner(1) this] key inner(2) have "u = url" by simp
    with inner stored show "rounds_from 0 res = rounds_from 0 (map snd stored)" by simp
  qed
  have "Inr (map snd stored) \<in> set ?os"
    using req items stored(1) by (force simp: ResponsePack_GetResponse_def image_iff)
  moreover have "Url (map snd stored ! 0) = url"
    using own_url_first [OF own stored] .
  ultimately have b: "\<exists>res \<in> set (results_of ?os). Url (res ! 0) = url"
    using stored(2) by (auto simp: set_results_of)
  from map_of_fold_update [of "results_of ?os" "\<lambda>res. Url (res ! 0)" url "rounds_from 0", OF a b]
  show ?thesis by (simp add: BatchGetResponse_fst)
qed


lemma Compress_BatchGetResponse_failed:
  assumes "is_schedule (length urls) sched" and "url \<in> set urls"
    and "CompressResponsePack_GetResponse decompress r url = Inl err"
  shows "fst (CompressResponsePack_BatchGetResponse decompress sched r urls) = None"
    and "err \<in> set (snd (CompressResponsePack_BatchGetResponse decompress sched r urls))"
proof -
  let ?os = "map (CompressResponsePack_GetResponse decompress r) (scheduled sched urls)"
  have "set (scheduled sched urls) = set urls"
    using assms(1) by (rule set_scheduled)
  with assms(2,3) have "Inl err \<in> set ?os" by (force simp: image_iff)
  then have e: "err \<in> set (errors_of ?os)" by (simp add: set_errors_of)
  then have "errors_of ?os \<noteq> []" by auto
  then show "fst (CompressResponsePack_BatchGetResponse decompress sched r urls) = None"
    by (simp add: CompressResponsePack_BatchGetResponse_def Let_def)
  from e \<open>errors_of ?os \<noteq> []\<close>
  show "err \<in> set (snd (CompressResponsePack_BatchGetResponse decompress sched r urls))"
    by (simp add: CompressResponsePack_BatchGetResponse_def Let_def)
qed

lemma fold_keys_mono:
  assumes "\<And>x out. fst ` set out \<subseteq> fst ` set (f x out)"
  shows "fst ` set out \<subseteq> fst ` set (fold f xs out)"
proof (induction xs arbitrary: out)
  case Nil
  then show ?case by simp
next
  case (Cons x xs)
  from assms [of out x] Cons [of "f x out"] show ?case by simp
qed

lemma fold_keys_member:
  assumes mono: "\<And>x out. fst ` set out \<subseteq> fst ` set (f x out)"
    and hit: "\<And>out. k \<in> fst ` set (f y out)"
    and mem: "y \<in> set xs"
  shows "k \<in> fst ` set (fold f xs out)"
  using mem
proof (induction xs arbitrary: out)
  case Nil
  then show ?case by simp
next
  case (Cons x xs)
  show ?case
  proof (cases "x = y")
    case True
    from fold_keys_mono [of f "f y out" xs, OF mono] hit [of out] True show ?thesis
      by auto
  next
    case False
    with Cons.prems have "y \<in> set xs" by simp
    from Cons.IH [OF this] show ?thesis by simp
  qed
qed

lemma store_record_mono: "fst ` set out \<subseteq> fst ` set (store_record x out)"
  by (cases x) (auto simp: store_record_def dom_update)

lemma store_record_hit: "Url (snd x) \<in> fst ` set (store_record x out)"
  by (cases x) (simp add: store_record_def dom_update)

lemma store_records_mono:
  "fst ` set out \<subseteq> fst ` set (fold store_record ixs out)"
  by (rule fold_keys_mono) (rule store_record_mono)

lemma store_records_key:
  assumes "resp \<noteq> []" and "\<forall>x \<in> set resp. Url x = url"
  shows "url \<in> fst ` set (fold store_record (List.enumerate 0 resp) out)"
proof -
  from assms(1) obtain x rest where resp: "resp = x # rest" by (cases resp) auto
  with assms(2) have "Url x = url" by simp
  then have "url \<in> fst ` set (store_record (0, x) out)"
    using store_record_hit [of "(0, x)" out] by simp
  with store_records_mono [of "store_record (0, x) out" "List.enumerate (Suc 0) rest"]
  show ?thesis by (auto simp: resp)
qed

lemma store_results_key:
  assumes "resp \<in> set results" and "resp \<noteq> []" and "\<forall>x \<in> set resp. Url x = url"
  shows "url \<in> fst ` set (fold (\<lambda>resp. fold store_record (List.enumerate 0 resp)) results out)"
  using store_records_mono store_records_key [OF assms(2,3)] assms(1)
  by (rule fold_keys_member)

lemma Compress_BatchGetResponse_store:
  "CompressResponsePack_BatchGetResponse decompress sched r urls =
     (let outcomes = map (CompressResponsePack_GetResponse decompress r) (scheduled sched urls)
      in if errors_of outcomes \<noteq> [] then (None, errors_of outcomes)
         else (Some (fold (\<lambda>resp. fold store_record (List.enumerate 0 resp))
                       (results_of outcomes) []), []))"
  by (simp add: CompressResponsePack_BatchGetResponse_def Let_def store_record_def)

lemma Compress_BatchGetResponse_found:
  assumes sched: "is_schedule (length urls) sched"
    and req: "url \<in> set urls"
    and ok: "list_all (\<lambda>u. \<not> isl (CompressResponsePack_GetResponse decompress r u)) urls"
    and got: "CompressResponsePack_GetResponse decompress r url = Inr resp" "resp \<noteq> []"
      "list_all (\<lambda>x. Url x = url) resp"
  shows "\<exists>m. CompressResponsePack_BatchGetResponse decompress sched r urls = (Some m, []) \<and>
             url \<in> fst ` set m"
proof -
  let ?os = "map (CompressResponsePack_GetResponse decompress r) (scheduled sched urls)"
  have items: "set (scheduled sched urls) = set urls"
    using sched by (rule set_scheduled)
  with ok have "set (errors_of ?os) = {}"
    by (auto simp: set_errors_of list_all_iff) (metis sum.disc(1))
  then have noerr: "errors_of ?os = []" by simp
  from items req got(1) have "Inr resp \<in> set ?os" by (force simp: image_iff)
  with got(2) have "resp \<in> set (results_of ?os)" by (simp add: set_results_of)
  from store_results_key [OF this got(2), of url "[]"] got(3)
  show ?thesis
    by (simp add: Compress_BatchGetResponse_store Let_def noerr list_all_iff)
qed


lemma set_rounds_from: "e \<in> set (rounds_from n xs) \<Longrightarrow> snd e \<in> set xs"
  using vals_rounds_from [of n xs] by (metis image_eqI list.set_map)

lemma AddResponse_seq_own_url:
  "each_under_own_url (snd (ResponsePack_AddResponse_seq NewResponsePack rs))"
proof -
  let ?m = "Responses (snd (ResponsePack_AddResponse_seq NewResponsePack rs))"
  let ?h = "map (\<lambda>r. (Url r, r)) (committed rs)"
  have "represents ?m ?h"
    using AddResponse_seq_represents [of NewResponsePack "[]" rs] fresh_represents(1) by simp
  then have d: "distinct (map fst ?m)"
    and look: "\<And>url. map_of ?m url =
       (if values_under url ?h = [] then None else Some (rounds_from 1 (values_under url ?h)))"
    by (simp_all add: represents_def)
  have "Url (snd e) = u" if "(u, inner) \<in> set ?m" and "e \<in> set inner" for u inner e
  proof -
    from d that(1) have "map_of ?m u = Some inner" by (rule map_of_is_SomeI)
    with look [of u] have "inner = rounds_from 1 (values_under u ?h)"
      by (simp split: if_splits)
    with that(2) have "snd e \<in> set (values_under u ?h)"
      using set_rounds_from by blast
    then show ?thesis by (auto simp: values_under_def)
  qed
  then show ?thesis
    by (auto simp: each_under_own_url_def list_all_iff)
qed

lemma store_record_single:
  "\<forall>e \<in> set out. length (snd e) = 1 \<Longrightarrow> \<forall>e \<in> set (store_record x out). length (snd e) = 1"
proof -
  assume a: "\<forall>e \<in> set out. length (snd e) = 1"
  obtain index response where x: "x = (index, response)" by (cases x)
  show ?thesis
    using a set_update_subset
      [of "Url response" "AList.update (round_key (index + 1)) response []" out]
    by (auto simp: store_record_def x)
qed

lemma store_records_single:
  "\<forall>e \<in> set out. length (snd e) = 1 \<Longrightarrow>
   \<forall>e \<in> set (fold store_record ixs out). length (snd e) = 1"
proof (induction ixs arbitrary: out)
  case Nil
  then show ?case by simp
next
  case (Cons x ixs)
  from Cons.prems have "\<forall>e \<in> set (store_record x out). length (snd e) = 1"
    by (rule store_record_single)
  from Cons.IH [OF this] show ?case by simp
qed

lemma store_results_single:
  "\<forall>e \<in> set out. length (snd e) = 1 \<Longrightarrow>
   \<forall>e \<in> set (fold (\<lambda>resp. fold store_record (List.enumerate 0 resp)) results out).
      length (snd e) = 1"
proof (induction results arbitrary: out)
  case Nil
  then show ?case by simp
next
  case (Cons resp results)
  from Cons.prems
  have "\<forall>e \<in> set (fold store_record (List.enumerate 0 resp) out). length (snd e) = 1"
    by (rule store_records_single)
  from Cons.IH [OF this] show ?case by simp
qed

lemma Compress_BatchGetResponse_single:
  assumes "fst (CompressResponsePack_BatchGetResponse decompress sched r urls) = Some m"
    and "(url, inner) \<in> set m"
  shows "length inner = 1"
proof -
  let ?os = "map (CompressResponsePack_GetResponse decompress r) (scheduled sched urls)"
  from assms(1)
  have "m = fold (\<lambda>resp. fold store_record (List.enumerate 0 resp)) (results_of ?os) []"
    by (auto simp: Compress_BatchGetResponse_store Let_def split: if_splits)
  with store_results_single [of "[]" "results_of ?os"] assms(2) show ?thesis
    by fastforce
qed

text \<open>
  Claim C6.  The claim says that \<^verbatim>\<open>BatchGetResponse\<close> returns, for a requested URL that is
  present with \<open>k\<close> rounds, an inner mapping with \<open>k\<close> entries under round keys numbered from
  1.  The plain pack stores record number \<open>index\<close> of a result under
  \<^verbatim>\<open>fmt.Sprintf("round_%d", index)\<close>, so its keys are \<^verbatim>\<open>round_0\<close>, ..., \<^verbatim>\<open>round_(k-1)\<close>
  (lemma \<open>BatchGetResponse_present\<close>, for every schedule, URL list and pack that keeps each
  record under its own URL, as \<^verbatim>\<open>AddResponse\<close> does): one stored
  record comes back under \<^verbatim>\<open>round_0\<close> and two under \<^verbatim>\<open>round_0\<close> and \<^verbatim>\<open>round_1\<close>.  The
  compressed pack runs \<^verbatim>\<open>responses[response.Url] = make(...)\<close> for every record, so every
  inner mapping it returns has one entry (lemma \<open>Compress_BatchGetResponse_single\<close>): a URL
  with two rounds comes back with \<^verbatim>\<open>round_2\<close> only.
\<close>

theorem batch_get_wrong_round_keys:
  "ResponsePack_BatchGetResponse [0]
     (snd (ResponsePack_AddResponse_seq NewResponsePack [Some api1_first]))
     [''https://example.com/api1''] =
     ([(''https://example.com/api1'', [(''round_0'', api1_first)])], []) \<and>
   ResponsePack_BatchGetResponse [0]
     (snd (ResponsePack_AddResponse_seq NewResponsePack [Some api1_first, Some api1_second]))
     [''https://example.com/api1''] =
     ([(''https://example.com/api1'',
        [(''round_0'', api1_first), (''round_1'', api1_second)])], []) \<and>
   CompressResponsePack_AddResponse_seq Inr (Some NewCompressResponsePack)
     [Some api1_first, Some api1_second] = ([], Some two_rounds) \<and>
   CompressResponsePack_BatchGetResponse Inr [0] two_rounds [''https://example.com/api1''] =
     (Some [(''https://example.com/api1'', [(''round_2'', api1_second)])], [])"
  by code_simp

end
